theory Spec2Isabelle
  imports Complex_Main
begin

section \<open>Surface triangulation by dynamic programming (pmp SurfaceTriangulation.cpp)\<close>

text \<open>
  The file embeds \<^verbatim>\<open>src/pmp/algorithms/SurfaceTriangulation.cpp\<close>: the per-face
  triangulation \<^verbatim>\<open>triangulate(Face)\<close>, its cost function \<^verbatim>\<open>compute_weight\<close> with
  \<^verbatim>\<open>is_interior_edge\<close>, and the whole-mesh loop \<^verbatim>\<open>triangulate()\<close>.

  The half-edge mesh (\<^verbatim>\<open>SurfaceMesh\<close>), the vector type and \<^verbatim>\<open>Scalar\<close> live in
  headers that are not part of the source under study. The mesh is therefore a
  parameter: a state type \<open>'m\<close>, a halfedge handle type \<open>'h\<close> and a record of the
  member functions the algorithm calls. Every theorem about the algorithm holds for
  every such record. The mesh changes by \<open>delete_face\<close>, \<open>add_triangle\<close> and
  \<open>garbage_collection\<close> only, so a result that is the given state says that none of
  them was called, and a result that is \<open>delete_face\<close> followed by some \<open>add_triangle\<close>
  says that exactly these calls were made, in this order.

  \<^verbatim>\<open>insert_edge\<close> is never called (its two calls are commented out) and is not
  embedded.
\<close>

subsection \<open>Handles, points and the mesh interface\<close>

type_synonym vertex = nat
type_synonym face = nat
type_synonym point = "real \<times> real \<times> real"

record ('m, 'h) mesh_ops =
  halfedge :: "'m \<Rightarrow> face \<Rightarrow> 'h"
  to_vertex :: "'m \<Rightarrow> 'h \<Rightarrow> vertex"
  next_halfedge :: "'m \<Rightarrow> 'h \<Rightarrow> 'h"
  opposite_halfedge :: "'m \<Rightarrow> 'h \<Rightarrow> 'h"
  find_halfedge :: "'m \<Rightarrow> vertex \<Rightarrow> vertex \<Rightarrow> 'h option"
  is_boundary :: "'m \<Rightarrow> 'h \<Rightarrow> bool"
  is_manifold :: "'m \<Rightarrow> vertex \<Rightarrow> bool"
  points :: "'m \<Rightarrow> vertex \<Rightarrow> point"
  faces :: "'m \<Rightarrow> face list"
  is_triangle_mesh :: "'m \<Rightarrow> bool"
  delete_face :: "face \<Rightarrow> 'm \<Rightarrow> 'm"
  add_triangle :: "vertex \<Rightarrow> vertex \<Rightarrow> vertex \<Rightarrow> 'm \<Rightarrow> 'm"
  garbage_collection :: "'m \<Rightarrow> 'm"

text \<open>
  \<open>find_halfedge\<close> returns \<open>None\<close> where the C++ returns an invalid handle
  (\<^verbatim>\<open>!h.is_valid()\<close>). \<open>faces\<close> is the sequence of handles that the range-based
  \<^verbatim>\<open>for (auto f: mesh_.faces())\<close> yields; its range expression is evaluated once, when
  the loop starts.

  \<^verbatim>\<open>Scalar\<close> is a floating-point type. The geometric part is modelled in exact real
  arithmetic: rounding, overflow to infinity and NaN are outside the model.
  \<^verbatim>\<open>FLT_MAX\<close> is the largest finite single-precision number, \<open>(2 - 2\<^sup>-\<^sup>2\<^sup>3) * 2\<^sup>1\<^sup>2\<^sup>7\<close>.
\<close>

definition FLT_MAX :: real where
  "FLT_MAX = 340282346638528859811704183484516925440"

text \<open>
  Modelled from the spec: the vector operations \<^verbatim>\<open>operator-\<close>, \<^verbatim>\<open>cross\<close> and
  \<^verbatim>\<open>sqrnorm\<close> of pmp's \<^verbatim>\<open>Vector\<close> header, which is not part of the source:
  component-wise difference, cross product and squared magnitude.
\<close>

fun vsub :: "point \<Rightarrow> point \<Rightarrow> point" where
  "vsub (x1, y1, z1) (x2, y2, z2) = (x1 - x2, y1 - y2, z1 - z2)"

fun cross :: "point \<Rightarrow> point \<Rightarrow> point" where
  "cross (a1, a2, a3) (b1, b2, b3) =
     (a2 * b3 - a3 * b2, a3 * b1 - a1 * b3, a1 * b2 - a2 * b1)"

fun sqrnorm :: "point \<Rightarrow> real" where
  "sqrnorm (x, y, z) = x * x + y * y + z * z"

subsection \<open>The cost function\<close>

text \<open>\<^verbatim>\<open>SurfaceTriangulation::is_edge\<close> (unused by the algorithm).\<close>

definition is_edge :: "('m, 'h) mesh_ops \<Rightarrow> 'm \<Rightarrow> vertex \<Rightarrow> vertex \<Rightarrow> bool" where
  "is_edge ops m a b = (find_halfedge ops m a b \<noteq> None)"

text \<open>\<^verbatim>\<open>SurfaceTriangulation::is_interior_edge\<close>.\<close>

definition is_interior_edge :: "('m, 'h) mesh_ops \<Rightarrow> 'm \<Rightarrow> vertex \<Rightarrow> vertex \<Rightarrow> bool" where
  "is_interior_edge ops m a b =
     (case find_halfedge ops m a b of
        None \<Rightarrow> False
      | Some h \<Rightarrow> \<not> is_boundary ops m h \<and> \<not> is_boundary ops m (opposite_halfedge ops m h))"

text \<open>
  \<^verbatim>\<open>SurfaceTriangulation::compute_weight(i, j, k)\<close>. The member \<^verbatim>\<open>vertices_\<close> is the
  argument \<open>vs\<close>. The callers pass indices \<open>0 \<le> i < j < k < n\<close>, so the indices are
  naturals here; the theorems about this function assume them below \<open>length vs\<close>.
\<close>

definition compute_weight ::
  "('m, 'h) mesh_ops \<Rightarrow> 'm \<Rightarrow> vertex list \<Rightarrow> nat \<Rightarrow> nat \<Rightarrow> nat \<Rightarrow> real" where
  "compute_weight ops m vs i j k =
     (let a = vs ! i; b = vs ! j; c = vs ! k in
      if is_interior_edge ops m a b \<or> is_interior_edge ops m b c \<or> is_interior_edge ops m c a
      then FLT_MAX
      else sqrnorm (cross (vsub (points ops m b) (points ops m a))
                          (vsub (points ops m c) (points ops m a))))"

subsection \<open>The dynamic-programming tables\<close>

text \<open>
  \<^verbatim>\<open>weight_\<close> and \<^verbatim>\<open>index_\<close> are \<open>n \<times> n\<close> vectors of vectors. The table builder only
  compares and adds scalars, so it is written for any linearly ordered scalar type
  with an addition, whatever the addition does (a NaN, which is not ordered, is
  outside the model); the sentinel \<^verbatim>\<open>FLT_MAX\<close> is its parameter \<open>fmax\<close> and the cost
  \<^verbatim>\<open>compute_weight(i, m, k)\<close> its parameter \<open>cost\<close>.
\<close>

definition get2 :: "'a list list \<Rightarrow> nat \<Rightarrow> nat \<Rightarrow> 'a" where
  "get2 t i k = t ! i ! k"

definition set2 :: "'a list list \<Rightarrow> nat \<Rightarrow> nat \<Rightarrow> 'a \<Rightarrow> 'a list list" where
  "set2 t i k v = t[i := (t ! i)[k := v]]"

text \<open>Lines 59 to 62: both tables cleared and resized.\<close>

definition init_tables :: "'a \<Rightarrow> nat \<Rightarrow> 'a list list \<times> int list list" where
  "init_tables fmax n = (replicate n (replicate n fmax), replicate n (replicate n 0))"

text \<open>Lines 68 to 72: the loop over \<open>i = 0, ..., n - 2\<close> that initialises the 2-gons.\<close>

definition init_2gons ::
  "nat \<Rightarrow> ('a::zero) list list \<times> int list list \<Rightarrow> 'a list list \<times> int list list" where
  "init_2gons n = fold (\<lambda>i (W, S). (set2 W i (i + 1) 0, set2 S i (i + 1) (- 1))) [0..<n - 1]"

text \<open>
  Lines 81 to 93: the scan for the best split \<open>m\<close> of the interval \<open>(i, k)\<close>, with the
  running minimum \<open>wmin\<close> (initially the sentinel) and its index \<open>imin\<close> (initially \<open>-1\<close>).
\<close>

definition split_step ::
  "(nat \<Rightarrow> nat \<Rightarrow> nat \<Rightarrow> 'a) \<Rightarrow> 'a list list \<Rightarrow> nat \<Rightarrow> nat \<Rightarrow> nat \<Rightarrow> ('a::{linorder,plus}) \<times> int
     \<Rightarrow> 'a \<times> int" where
  "split_step cost W i k m = (\<lambda>(wmin, imin).
     let w = get2 W i m + cost i m k + get2 W m k in
     if w < wmin then (w, int m) else (wmin, imin))"

definition best_split ::
  "('a::{linorder,plus}) \<Rightarrow> (nat \<Rightarrow> nat \<Rightarrow> nat \<Rightarrow> 'a) \<Rightarrow> 'a list list \<Rightarrow> nat \<Rightarrow> nat \<Rightarrow> 'a \<times> int" where
  "best_split fmax cost W i k = fold (split_step cost W i k) [i + 1..<k] (fmax, - 1)"

text \<open>Lines 78 to 97: all intervals \<open>(i, i + j)\<close> of one length \<open>j\<close>.\<close>

definition fill_length ::
  "('a::{linorder,plus}) \<Rightarrow> (nat \<Rightarrow> nat \<Rightarrow> nat \<Rightarrow> 'a) \<Rightarrow> nat \<Rightarrow> nat
     \<Rightarrow> 'a list list \<times> int list list \<Rightarrow> 'a list list \<times> int list list" where
  "fill_length fmax cost n j =
     fold (\<lambda>i (W, S).
             let k = i + j; (wmin, imin) = best_split fmax cost W i k
             in (set2 W i k wmin, set2 S i k imin))
          [0..<n - j]"

text \<open>Lines 59 to 98: the whole table-building phase.\<close>

definition build_tables ::
  "('a::{linorder,plus,zero}) \<Rightarrow> (nat \<Rightarrow> nat \<Rightarrow> nat \<Rightarrow> 'a) \<Rightarrow> nat \<Rightarrow> 'a list list \<times> int list list" where
  "build_tables fmax cost n =
     fold (fill_length fmax cost n) [2..<n] (init_2gons n (init_tables fmax n))"

subsection \<open>Collecting the polygon\<close>

text \<open>
  What \<^verbatim>\<open>triangulate(Face)\<close> writes to \<^verbatim>\<open>std::cerr\<close>: the only message is
  \<^verbatim>\<open>[SurfaceTriangulation] Non-manifold polygon\<close>.
\<close>

datatype diagnostic = Non_manifold_polygon

text \<open>
  Lines 37 to 49, the \<^verbatim>\<open>do ... while\<close> walk around the face. \<open>h0\<close> is the start
  halfedge \<^verbatim>\<open>_h\<close>, \<open>h\<close> the current one, \<open>hs\<close> and \<open>vs\<close> the members \<^verbatim>\<open>halfedges_\<close> and
  \<^verbatim>\<open>vertices_\<close> so far. The walk need not return to \<open>h0\<close> in a corrupted mesh, so the
  result is an option: \<open>None\<close> stands for a loop that never ends.
\<close>

partial_function (option) collect_polygon ::
  "('m, 'h) mesh_ops \<Rightarrow> 'm \<Rightarrow> 'h \<Rightarrow> 'h \<Rightarrow> 'h list \<Rightarrow> vertex list
     \<Rightarrow> (diagnostic + 'h list \<times> vertex list) option" where
  "collect_polygon ops m h0 h hs vs =
     (if \<not> is_manifold ops m (to_vertex ops m h) then Some (Inl Non_manifold_polygon)
      else if next_halfedge ops m h \<noteq> h0
        then collect_polygon ops m h0 (next_halfedge ops m h)
               (hs @ [h]) (vs @ [to_vertex ops m h])
        else Some (Inr (hs @ [h], vs @ [to_vertex ops m h])))"

subsection \<open>Emitting the triangles\<close>

text \<open>
  Indexing a \<^verbatim>\<open>std::vector\<close> outside \<open>0 .. size - 1\<close> is undefined behaviour in C++.
  The model makes it a fault value that names the access: a read of
  \<^verbatim>\<open>index_[start][end]\<close> or a read of \<^verbatim>\<open>vertices_[i]\<close>.
\<close>

datatype fault = Table_index_out_of_range int int | Vertex_index_out_of_range int

definition in_range :: "'a list \<Rightarrow> int \<Rightarrow> bool" where
  "in_range xs i = (0 \<le> i \<and> i < int (length xs))"

text \<open>
  Lines 104 to 120, the \<^verbatim>\<open>while (!todo.empty())\<close> loop. The vector \<^verbatim>\<open>todo\<close> is a
  list whose head is \<^verbatim>\<open>todo.back()\<close>. The stored split is used as it is read, with no
  check. With a split outside \<open>(start, end)\<close> the loop need not end, hence the option.
\<close>

partial_function (option) emit_triangles ::
  "('m, 'h) mesh_ops \<Rightarrow> int list list \<Rightarrow> vertex list \<Rightarrow> (int \<times> int) list \<Rightarrow> 'm
     \<Rightarrow> (fault + 'm) option" where
  "emit_triangles ops index vs todo m =
     (case todo of
        [] \<Rightarrow> Some (Inr m)
      | tri # rest \<Rightarrow>
          if snd tri - fst tri < 2 then emit_triangles ops index vs rest m
          else if \<not> (in_range index (fst tri) \<and> in_range (index ! nat (fst tri)) (snd tri))
            then Some (Inl (Table_index_out_of_range (fst tri) (snd tri)))
          else if \<not> in_range vs (fst tri)
            then Some (Inl (Vertex_index_out_of_range (fst tri)))
          else if \<not> in_range vs (index ! nat (fst tri) ! nat (snd tri))
            then Some (Inl (Vertex_index_out_of_range (index ! nat (fst tri) ! nat (snd tri))))
          else if \<not> in_range vs (snd tri)
            then Some (Inl (Vertex_index_out_of_range (snd tri)))
          else emit_triangles ops index vs
                 ((index ! nat (fst tri) ! nat (snd tri), snd tri)
                    # (fst tri, index ! nat (fst tri) ! nat (snd tri)) # rest)
                 (add_triangle ops (vs ! nat (fst tri))
                    (vs ! nat (index ! nat (fst tri) ! nat (snd tri)))
                    (vs ! nat (snd tri)) m))"

subsection \<open>One face, and the whole mesh\<close>

text \<open>
  \<^verbatim>\<open>SurfaceTriangulation::triangulate(Face f)\<close>. The result is the mesh afterwards
  and what was written to \<^verbatim>\<open>std::cerr\<close>, or a fault. The buffers \<^verbatim>\<open>halfedges_\<close>,
  \<^verbatim>\<open>vertices_\<close>, \<^verbatim>\<open>weight_\<close> and \<^verbatim>\<open>index_\<close> are cleared before they are used and are
  local values here.
\<close>

definition triangulate_face ::
  "('m, 'h) mesh_ops \<Rightarrow> face \<Rightarrow> 'm \<Rightarrow> (fault + 'm \<times> diagnostic list) option" where
  "triangulate_face ops f m =
     (case collect_polygon ops m (halfedge ops m f) (halfedge ops m f) [] [] of
        None \<Rightarrow> None
      | Some (Inl d) \<Rightarrow> Some (Inr (m, [d]))
      | Some (Inr (hs, vs)) \<Rightarrow>
          let n = length hs in
          if n \<le> 3 then Some (Inr (m, []))
          else
            let m1 = delete_face ops f m;
                index = snd (build_tables FLT_MAX (compute_weight ops m1 vs) n)
            in (case emit_triangles ops index vs [(0, int n - 1)] m1 of
                  None \<Rightarrow> None
                | Some (Inl e) \<Rightarrow> Some (Inl e)
                | Some (Inr m2) \<Rightarrow> Some (Inr (m2, []))))"

text \<open>Lines 20 and 21: the loop over the faces, with everything written to \<^verbatim>\<open>std::cerr\<close>.\<close>

fun triangulate_faces ::
  "('m, 'h) mesh_ops \<Rightarrow> face list \<Rightarrow> 'm \<Rightarrow> diagnostic list
     \<Rightarrow> (fault + 'm \<times> diagnostic list) option" where
  "triangulate_faces ops [] m ds = Some (Inr (m, ds))"
| "triangulate_faces ops (f # fs) m ds =
     (case triangulate_face ops f m of
        None \<Rightarrow> None
      | Some (Inl e) \<Rightarrow> Some (Inl e)
      | Some (Inr (m', ds')) \<Rightarrow> triangulate_faces ops fs m' (ds @ ds'))"

text \<open>
  \<^verbatim>\<open>SurfaceTriangulation::triangulate()\<close>: the loop, the garbage collection, and the
  flag printed after \<^verbatim>\<open>Triangle mesh?\<close> on \<^verbatim>\<open>std::cout\<close>.
\<close>

definition triangulate ::
  "('m, 'h) mesh_ops \<Rightarrow> 'm \<Rightarrow> (fault + 'm \<times> diagnostic list \<times> bool) option" where
  "triangulate ops m =
     (case triangulate_faces ops (faces ops m) m [] of
        None \<Rightarrow> None
      | Some (Inl e) \<Rightarrow> Some (Inl e)
      | Some (Inr (m', ds)) \<Rightarrow>
          Some (Inr (garbage_collection ops m', ds,
                     is_triangle_mesh ops (garbage_collection ops m'))))"

section \<open>Notions used to state the properties\<close>

subsection \<open>Polygons\<close>

text \<open>
  The halfedge reached from \<open>h0\<close> by \<open>j\<close> applications of \<^verbatim>\<open>next_halfedge\<close>, the first
  \<open>n\<close> halfedges of the face \<open>f\<close> from \<^verbatim>\<open>mesh_.halfedge(f)\<close> and the vertices they
  point to.
\<close>

definition walk :: "('m, 'h) mesh_ops \<Rightarrow> 'm \<Rightarrow> 'h \<Rightarrow> nat \<Rightarrow> 'h" where
  "walk ops m h0 j = (next_halfedge ops m ^^ j) h0"

definition polygon_halfedges :: "('m, 'h) mesh_ops \<Rightarrow> 'm \<Rightarrow> face \<Rightarrow> nat \<Rightarrow> 'h list" where
  "polygon_halfedges ops m f n = map (walk ops m (halfedge ops m f)) [0..<n]"

definition polygon_vertices :: "('m, 'h) mesh_ops \<Rightarrow> 'm \<Rightarrow> face \<Rightarrow> nat \<Rightarrow> vertex list" where
  "polygon_vertices ops m f n = map (to_vertex ops m) (polygon_halfedges ops m f n)"

text \<open>
  The face \<open>f\<close> has boundary length \<open>n\<close>: the walk is back at its start after \<open>n\<close>
  steps and not before.
\<close>

definition boundary_length :: "('m, 'h) mesh_ops \<Rightarrow> 'm \<Rightarrow> face \<Rightarrow> nat \<Rightarrow> bool" where
  "boundary_length ops m f n =
     (0 < n \<and> walk ops m (halfedge ops m f) n = halfedge ops m f \<and>
      list_all (\<lambda>j. walk ops m (halfedge ops m f) j \<noteq> halfedge ops m f) [1..<n])"

definition all_manifold :: "('m, 'h) mesh_ops \<Rightarrow> 'm \<Rightarrow> face \<Rightarrow> nat \<Rightarrow> bool" where
  "all_manifold ops m f n = list_all (is_manifold ops m) (polygon_vertices ops m f n)"

text \<open>
  The walk around \<open>f\<close> reaches its position \<open>k\<close> (counted from 0) without having
  closed, and the vertex visited there fails the manifold predicate.
\<close>

definition reaches_non_manifold :: "('m, 'h) mesh_ops \<Rightarrow> 'm \<Rightarrow> face \<Rightarrow> nat \<Rightarrow> bool" where
  "reaches_non_manifold ops m f k =
     (list_all (\<lambda>j. walk ops m (halfedge ops m f) j \<noteq> halfedge ops m f) [1..<Suc k] \<and>
      \<not> is_manifold ops m (to_vertex ops m (walk ops m (halfedge ops m f) k)))"


subsection \<open>Interior edges, in the words of the specification\<close>


subsection \<open>Tables\<close>

definition square_table :: "nat \<Rightarrow> 'a list list \<Rightarrow> bool" where
  "square_table n t = (length t = n \<and> list_all (\<lambda>r. length r = n) t)"

text \<open>The value \<^verbatim>\<open>w\<close> of line 87 for the split \<open>m\<close> of the interval \<open>(i, k)\<close>.\<close>

definition candidate ::
  "(nat \<Rightarrow> nat \<Rightarrow> nat \<Rightarrow> 'a) \<Rightarrow> ('a::plus) list list \<Rightarrow> nat \<Rightarrow> nat \<Rightarrow> nat \<Rightarrow> 'a" where
  "candidate cost W i k m = get2 W i m + cost i m k + get2 W m k"

text \<open>
  What a scan of the splits \<open>a, ..., b - 1\<close> with the candidate values \<open>c\<close> leaves in
  \<open>(wmin, imin)\<close>: the least of the sentinel and the candidates, with the first split
  that attains it when it is below the sentinel, and \<open>-1\<close> otherwise.
\<close>

definition scan_ok :: "('a::linorder) \<Rightarrow> (nat \<Rightarrow> 'a) \<Rightarrow> nat \<Rightarrow> nat \<Rightarrow> 'a \<times> int \<Rightarrow> bool" where
  "scan_ok fmax c a b r =
     (fst r = Min (insert fmax (c ` {a..<b})) \<and>
      (if fst r < fmax
       then \<exists>m. a \<le> m \<and> m < b \<and> snd r = int m \<and> c m = fst r \<and>
                (\<forall>m'. a \<le> m' \<and> m' < m \<longrightarrow> fst r < c m')
       else snd r = - 1))"

text \<open>The invariant of the loop over the lengths \<open>j\<close>: all shorter intervals are final.\<close>

definition entries_ok ::
  "('a::{linorder,plus,zero}) \<Rightarrow> (nat \<Rightarrow> nat \<Rightarrow> nat \<Rightarrow> 'a) \<Rightarrow> nat \<Rightarrow> nat
     \<Rightarrow> 'a list list \<times> int list list \<Rightarrow> bool" where
  "entries_ok fmax cost n j T =
     (square_table n (fst T) \<and> square_table n (snd T) \<and>
      (\<forall>i. Suc i < n \<longrightarrow> get2 (fst T) i (Suc i) = 0 \<and> get2 (snd T) i (Suc i) = - 1) \<and>
      (\<forall>i k. i + 2 \<le> k \<and> k < n \<and> k - i < j \<longrightarrow>
         (get2 (fst T) i k, get2 (snd T) i k) = best_split fmax cost (fst T) i k))"

text \<open>Every entry of a split table for an interval of length at least 2 is \<open>-1\<close> or a
  split strictly inside the interval.\<close>

definition sentinel_or_split :: "nat \<Rightarrow> int list list \<Rightarrow> bool" where
  "sentinel_or_split n index =
     (\<forall>s e. s + 2 \<le> e \<and> e < n \<longrightarrow>
        get2 index s e = - 1 \<or> (int s < get2 index s e \<and> get2 index s e < int e))"

text \<open>
  The check, along the recursion of the emitter, that every interval of length at least
  2 that it reaches from \<open>(s, e)\<close> has a split strictly inside it.
\<close>

function splits_ok :: "int list list \<Rightarrow> int \<Rightarrow> int \<Rightarrow> bool" where
  "splits_ok index s e =
     (if e - s < 2 then True
      else if s < index ! nat s ! nat e \<and> index ! nat s ! nat e < e
        then splits_ok index (index ! nat s ! nat e) e \<and> splits_ok index s (index ! nat s ! nat e)
        else False)"
  by pat_completeness auto
termination
  by (relation "measure (\<lambda>(index, s, e). nat (e - s))") auto

text \<open>
  The intervals \<open>(a, b)\<close> that the emitter reaches from the root \<open>(s, e)\<close>: the root,
  and the two parts of a reached interval of length at least 2 whose split lies
  strictly inside it.
\<close>

inductive reached :: "int list list \<Rightarrow> int \<Rightarrow> int \<Rightarrow> int \<times> int \<Rightarrow> bool"
  for index :: "int list list" and s :: int and e :: int where
  root: "reached index s e (s, e)"
| upper: "reached index s e (a, b) \<Longrightarrow> 2 \<le> b - a \<Longrightarrow> a < index ! nat a ! nat b \<Longrightarrow>
     index ! nat a ! nat b < b \<Longrightarrow> reached index s e (index ! nat a ! nat b, b)"
| lower: "reached index s e (a, b) \<Longrightarrow> 2 \<le> b - a \<Longrightarrow> a < index ! nat a ! nat b \<Longrightarrow>
     index ! nat a ! nat b < b \<Longrightarrow> reached index s e (a, index ! nat a ! nat b)"

text \<open>
  Every entry that the emitter reaches from the root \<open>(s, e)\<close>, for an interval of
  length at least 2, is a split strictly inside the interval. The function \<open>splits_ok\<close>
  decides it.
\<close>

definition reachable_splits_valid :: "int list list \<Rightarrow> int \<Rightarrow> int \<Rightarrow> bool" where
  "reachable_splits_valid index s e =
     (\<forall>a b. reached index s e (a, b) \<and> 2 \<le> b - a \<longrightarrow>
        a < index ! nat a ! nat b \<and> index ! nat a ! nat b < b)"

text \<open>
  The index triples \<open>(start, split, end)\<close> of the triangles, in the order in which the
  stack of the emitter produces them: the interval itself, then everything below
  \<open>(split, end)\<close>, which was pushed last, then everything below \<open>(start, split)\<close>.
\<close>

function emitted_splits :: "int list list \<Rightarrow> int \<Rightarrow> int \<Rightarrow> (int \<times> int \<times> int) list" where
  "emitted_splits index s e =
     (if e - s < 2 then []
      else if s < index ! nat s ! nat e \<and> index ! nat s ! nat e < e
        then (s, index ! nat s ! nat e, e)
               # emitted_splits index (index ! nat s ! nat e) e
               @ emitted_splits index s (index ! nat s ! nat e)
        else [])"
  by pat_completeness auto
termination
  by (relation "measure (\<lambda>(index, s, e). nat (e - s))") auto

declare splits_ok.simps [simp del] emitted_splits.simps [simp del]

type_synonym triangle = "vertex \<times> vertex \<times> vertex"

definition emitted_triangles :: "int list list \<Rightarrow> vertex list \<Rightarrow> int \<Rightarrow> int \<Rightarrow> triangle list" where
  "emitted_triangles index vs s e =
     map (\<lambda>(a, b, c). (vs ! nat a, vs ! nat b, vs ! nat c)) (emitted_splits index s e)"

text \<open>A sequence of calls of \<^verbatim>\<open>mesh_.add_triangle\<close>, first to last.\<close>

definition add_triangles :: "('m, 'h) mesh_ops \<Rightarrow> triangle list \<Rightarrow> 'm \<Rightarrow> 'm" where
  "add_triangles ops ts m = fold (\<lambda>(a, b, c). add_triangle ops a b c) ts m"

text \<open>
  The tables that \<^verbatim>\<open>triangulate(Face)\<close> builds for a face of boundary length \<open>n\<close>: the
  vertices are collected in the mesh as it is given, the costs are evaluated in the
  mesh from which the face has been deleted.
\<close>

definition face_weight :: "('m, 'h) mesh_ops \<Rightarrow> 'm \<Rightarrow> face \<Rightarrow> nat \<Rightarrow> real list list" where
  "face_weight ops m f n =
     fst (build_tables FLT_MAX
            (compute_weight ops (delete_face ops f m) (polygon_vertices ops m f n)) n)"

definition face_index :: "('m, 'h) mesh_ops \<Rightarrow> 'm \<Rightarrow> face \<Rightarrow> nat \<Rightarrow> int list list" where
  "face_index ops m f n =
     snd (build_tables FLT_MAX
            (compute_weight ops (delete_face ops f m) (polygon_vertices ops m f n)) n)"

subsection \<open>Triangulations\<close>




subsection \<open>The order of steps in the words of the specification\<close>


section \<open>A mesh to run the algorithm on\<close>

text \<open>
  Modelled from the spec: the mesh collaborator (\<^verbatim>\<open>SurfaceMesh\<close>, not part of the
  source), reduced to what the specification says of it. A mesh is its faces, each the
  cyclic sequence of its vertices, and the vertex positions, indexed by the vertex
  handle. A face handle is the position of the face in the table; a deleted face is
  marked (\<open>None\<close>) and removed by the garbage collection. A halfedge is the pair of its
  end points. A halfedge is a boundary halfedge when no face lies on its side, an edge
  exists when a face uses one of its halfedges, and a vertex is manifold when it has
  fewer than two outgoing boundary halfedges (it is not "incident to more than one
  disjoint fan of faces"). This mesh is used for the concrete instances only; no
  general theorem depends on it.
\<close>

record soup =
  polys :: "vertex list option list"
  pos :: "point list"

definition poly_halfedges :: "vertex list \<Rightarrow> (vertex \<times> vertex) list" where
  "poly_halfedges vs = zip vs (rotate1 vs)"

definition live_polys :: "soup \<Rightarrow> vertex list list" where
  "live_polys m = concat (map (\<lambda>p. case p of None \<Rightarrow> [] | Some vs \<Rightarrow> [vs]) (polys m))"

definition has_halfedge :: "soup \<Rightarrow> vertex \<Rightarrow> vertex \<Rightarrow> bool" where
  "has_halfedge m a b = list_ex (\<lambda>vs. (a, b) \<in> set (poly_halfedges vs)) (live_polys m)"

definition soup_next :: "soup \<Rightarrow> vertex \<times> vertex \<Rightarrow> vertex \<times> vertex" where
  "soup_next m h =
     (case find (\<lambda>vs. h \<in> set (poly_halfedges vs)) (live_polys m) of
        None \<Rightarrow> h
      | Some vs \<Rightarrow>
          (case find (\<lambda>e. fst e = snd h) (poly_halfedges vs) of None \<Rightarrow> h | Some e \<Rightarrow> e))"

definition soup_gaps :: "soup \<Rightarrow> vertex \<Rightarrow> vertex list" where
  "soup_gaps m v =
     remdups (filter (\<lambda>b. \<not> has_halfedge m v b)
       (map fst (filter (\<lambda>e. snd e = v) (concat (map poly_halfedges (live_polys m))))))"

definition soup_ops :: "(soup, vertex \<times> vertex) mesh_ops" where
  "soup_ops = \<lparr>
     halfedge = (\<lambda>m f. case polys m ! f of Some vs \<Rightarrow> (last vs, hd vs) | None \<Rightarrow> (0, 0)),
     to_vertex = (\<lambda>m h. snd h),
     next_halfedge = soup_next,
     opposite_halfedge = (\<lambda>m h. (snd h, fst h)),
     find_halfedge =
       (\<lambda>m a b. if has_halfedge m a b \<or> has_halfedge m b a then Some (a, b) else None),
     is_boundary = (\<lambda>m h. \<not> has_halfedge m (fst h) (snd h)),
     is_manifold = (\<lambda>m v. length (soup_gaps m v) < 2),
     points = (\<lambda>m v. pos m ! v),
     faces = (\<lambda>m. filter (\<lambda>f. polys m ! f \<noteq> None) [0..<length (polys m)]),
     is_triangle_mesh = (\<lambda>m. list_all (\<lambda>vs. length vs = 3) (live_polys m)),
     delete_face = (\<lambda>f m. m\<lparr>polys := (polys m)[f := None]\<rparr>),
     add_triangle = (\<lambda>a b c m. m\<lparr>polys := polys m @ [Some [a, b, c]]\<rparr>),
     garbage_collection = (\<lambda>m. m\<lparr>polys := filter (\<lambda>p. p \<noteq> None) (polys m)\<rparr>)
   \<rparr>"

text \<open>
  Positions: the vertices 0, 1, 2, 3 are the corners of a convex kite. The diagonal
  between 1 and 3 cuts it into two triangles of equal area (cost \<open>16 + 16\<close>), the
  diagonal between 0 and 2 into a small and a large one (cost \<open>4 + 36\<close>).
\<close>

definition kite :: "point list" where
  "kite = [(- 1, 1, 0), (0, 0, 0), (1, 1, 0), (0, 4, 0)]"

text \<open>
  A closed surface of three faces: the quadrilateral \<open>0 1 2 3\<close> (face 0) and, on its
  back, the triangles \<open>1 0 3\<close> and \<open>3 2 1\<close>. The diagonal between 1 and 3 of the
  quadrilateral is an interior edge of the mesh: the two triangles share it.
\<close>

definition pillow :: soup where
  "pillow = \<lparr>polys = [Some [0, 1, 2, 3], Some [1, 0, 3], Some [3, 2, 1]], pos = kite\<rparr>"

text \<open>Two triangles that touch in the vertex 0 only, which is therefore not manifold.\<close>

definition bowtie :: soup where
  "bowtie = \<lparr>polys = [Some [1, 2, 0], Some [3, 4, 0]], pos = kite @ [(2, 5, 0)]\<rparr>"

text \<open>A single triangle.\<close>

definition one_triangle :: soup where
  "one_triangle = \<lparr>polys = [Some [0, 1, 2]], pos = kite\<rparr>"

text \<open>
  The triangulation of the torus with seven vertices and the fourteen triangles
  \<open>(i, i + 1, i + 3)\<close> and \<open>(i, i + 3, i + 2)\<close> modulo 7, in which every two vertices are
  joined by an edge, with the four triangles \<open>0 1 3\<close>, \<open>0 3 2\<close>, \<open>0 2 6\<close> and \<open>0 6 4\<close>
  around the vertex 0 merged into the hexagon \<open>1 3 2 6 4 0\<close> (face 0). The diagonals of
  the hexagon that do not end in the vertex 0 are interior edges of the mesh. The
  positions, which only enter the areas, lie on a parabola.
\<close>

definition torus :: soup where
  "torus = \<lparr>polys =
      [Some [1, 3, 2, 6, 4, 0],
       Some [1, 2, 4], Some [1, 4, 3], Some [2, 3, 5], Some [2, 5, 4], Some [3, 4, 6],
       Some [3, 6, 5], Some [4, 5, 0], Some [5, 6, 1], Some [5, 1, 0], Some [6, 2, 1]],
     pos = [(0, 0, 0), (1, 1, 0), (2, 4, 0), (3, 9, 0), (4, 16, 0), (5, 25, 0), (6, 36, 0)]\<rparr>"

section \<open>Verification\<close>

subsection \<open>The tables after the table-building phase\<close>

lemma square_table_row: "square_table n t \<Longrightarrow> i < n \<Longrightarrow> length (t ! i) = n"
  by (simp add: square_table_def list_all_length)

lemma square_table_set2: "square_table n t \<Longrightarrow> square_table n (set2 t i k v)"
  unfolding square_table_def set2_def list_all_length
  by (cases "i < length t") (auto simp: nth_list_update)

lemma get2_set2:
  "square_table n t \<Longrightarrow> i < n \<Longrightarrow> k < n \<Longrightarrow>
     get2 (set2 t i k v) i' k' = (if i' = i \<and> k' = k then v else get2 t i' k')"
  unfolding get2_def set2_def
  by (auto simp: nth_list_update square_table_row square_table_def)

lemma square_table_replicate: "square_table n (replicate n (replicate n x))"
  by (simp add: square_table_def list_all_length)

lemma fold_upt_invariant:
  assumes "P a s" and "a \<le> b"
    and "\<And>i s. a \<le> i \<Longrightarrow> i < b \<Longrightarrow> P i s \<Longrightarrow> P (Suc i) (f i s)"
  shows "P b (fold f [a..<b] s)"
  using assms(2,3)
proof (induction b)
  case 0
  then show ?case using assms(1) by simp
next
  case (Suc b)
  show ?case
  proof (cases "a = Suc b")
    case True
    then show ?thesis using assms(1) by simp
  next
    case False
    then have ab: "a \<le> b" using Suc.prems(1) by simp
    have "P b (fold f [a..<b] s)"
      using Suc.IH [OF ab] Suc.prems(2) by simp
    then have "P (Suc b) (f b (fold f [a..<b] s))"
      using Suc.prems(2) [of b] ab by simp
    then show ?thesis using ab by simp
  qed
qed

lemma scan_ok_step:
  assumes "scan_ok fmax c a b r" "a \<le> b"
  shows "scan_ok fmax c a (Suc b) (if c b < fst r then (c b, int b) else r)"
proof -
  have set: "{a..<Suc b} = insert b {a..<b}" using assms(2) by auto
  have Min: "Min (insert fmax (c ` {a..<Suc b})) = min (c b) (Min (insert fmax (c ` {a..<b})))"
  proof -
    have "insert fmax (c ` {a..<Suc b}) = insert (c b) (insert fmax (c ` {a..<b}))"
      unfolding set by auto
    then show ?thesis by simp
  qed
  have fst: "fst r = Min (insert fmax (c ` {a..<b}))" using assms(1) by (simp add: scan_ok_def)
  have le_fmax: "fst r \<le> fmax" unfolding fst by simp
  have le_all: "\<And>m'. a \<le> m' \<Longrightarrow> m' < b \<Longrightarrow> fst r \<le> c m'"
    unfolding fst by (rule Min_le) auto
  show ?thesis
  proof (cases "c b < fst r")
    case True
    have "\<forall>m'. a \<le> m' \<and> m' < b \<longrightarrow> c b < c m'"
      using True le_all by (meson less_le_trans)
    then show ?thesis using True le_fmax assms(2)
      unfolding scan_ok_def Min fst [symmetric]
      by (auto simp: min_def)
  next
    case False
    then have m: "min (c b) (fst r) = fst r" by (simp add: min_def)
    show ?thesis
    proof (cases "fst r < fmax")
      case lt: True
      then obtain m where "a \<le> m" "m < b" "snd r = int m" "c m = fst r"
        "\<forall>m'. a \<le> m' \<and> m' < m \<longrightarrow> fst r < c m'"
        using assms(1) unfolding scan_ok_def by auto
      then show ?thesis using False lt
        unfolding scan_ok_def Min fst [symmetric] m
        by (auto intro!: exI [of _ m])
    next
      case ge: False
      then show ?thesis using False assms(1)
        unfolding scan_ok_def Min fst [symmetric] m by auto
    qed
  qed
qed

lemma split_step_eq:
  "split_step cost W i k m r =
     (if candidate cost W i k m < fst r then (candidate cost W i k m, int m) else r)"
  by (cases r) (simp add: split_step_def candidate_def Let_def)

lemma scan_ok_fold:
  assumes "a \<le> b"
  shows "scan_ok fmax (candidate cost W i k) a b (fold (split_step cost W i k) [a..<b] (fmax, - 1))"
proof (rule fold_upt_invariant [where P = "\<lambda>j r. scan_ok fmax (candidate cost W i k) a j r"])
  show "scan_ok fmax (candidate cost W i k) a a (fmax, - 1)"
    by (simp add: scan_ok_def)
  show "a \<le> b" by fact
  fix j r assume "a \<le> j" "j < b" "scan_ok fmax (candidate cost W i k) a j r"
  then show "scan_ok fmax (candidate cost W i k) a (Suc j) (split_step cost W i k j r)"
    unfolding split_step_eq by (rule_tac scan_ok_step) auto
qed

lemma best_split_ok:
  "i < k \<Longrightarrow> scan_ok fmax (candidate cost W i k) (Suc i) k (best_split fmax cost W i k)"
  unfolding best_split_def using scan_ok_fold [of "Suc i" k] by simp

lemma best_split_cong:
  assumes "\<And>m. i < m \<Longrightarrow> m < k \<Longrightarrow> get2 W i m = get2 W' i m \<and> get2 W m k = get2 W' m k"
  shows "best_split fmax cost W i k = best_split fmax cost W' i k"
  unfolding best_split_def
  by (rule fold_cong) (auto simp: split_step_def assms fun_eq_iff)

lemma init_2gons_ok: "entries_ok fmax cost n 2 (init_2gons n (init_tables fmax n))"
proof -
  let ?P = "\<lambda>i0 T. square_table n (fst T) \<and> square_table n (snd T) \<and>
     (\<forall>i. i < i0 \<and> Suc i < n \<longrightarrow> get2 (fst T) i (Suc i) = 0 \<and> get2 (snd T) i (Suc i) = - 1)"
  have "?P (n - 1) (fold (\<lambda>i (W, S). (set2 W i (i + 1) 0, set2 S i (i + 1) (- 1))) [0..<n - 1]
            (init_tables fmax n))"
  proof (rule fold_upt_invariant [where P = ?P])
    show "?P 0 (init_tables fmax n)"
      by (simp add: init_tables_def square_table_replicate)
    show "0 \<le> n - 1" by simp
    fix i T assume i: "0 \<le> i" "i < n - 1" and P: "?P i T"
    obtain W S where T: "T = (W, S)" by (cases T)
    have sq: "square_table n W" "square_table n S" using P T by auto
    have "i < n" "Suc i < n" using i by auto
    then show "?P (Suc i) ((\<lambda>i (W, S). (set2 W i (i + 1) 0, set2 S i (i + 1) (- 1))) i T)"
      using P sq unfolding T
      by (auto simp: square_table_set2 get2_set2 [OF sq(1)] get2_set2 [OF sq(2)] less_Suc_eq)
  qed
  then show ?thesis
    unfolding entries_ok_def init_2gons_def by auto
qed

lemma fill_length_ok:
  assumes ok: "entries_ok fmax cost n j T" and j: "2 \<le> j"
  shows "entries_ok fmax cost n (Suc j) (fill_length fmax cost n j T)"
proof -
  let ?step = "\<lambda>i (W, S). let k = i + j; (wmin, imin) = best_split fmax cost W i k
                 in (set2 W i k wmin, set2 S i k imin)"
  let ?Q = "\<lambda>i0 T. entries_ok fmax cost n j T \<and>
     (\<forall>i. i < i0 \<and> i + j < n \<longrightarrow>
        (get2 (fst T) i (i + j), get2 (snd T) i (i + j)) = best_split fmax cost (fst T) i (i + j))"
  have "?Q (n - j) (fold ?step [0..<n - j] T)"
  proof (rule fold_upt_invariant [where P = ?Q])
    show "?Q 0 T" using ok by simp
    show "0 \<le> n - j" by simp
    fix i T assume i: "0 \<le> i" "i < n - j" and Q: "?Q i T"
    obtain W S where T: "T = (W, S)" by (cases T)
    obtain wmin imin where b: "best_split fmax cost W i (i + j) = (wmin, imin)"
      by (cases "best_split fmax cost W i (i + j)")
    let ?W = "set2 W i (i + j) wmin" and ?S = "set2 S i (i + j) imin"
    have step: "?step i T = (?W, ?S)" by (simp add: T b Let_def)
    have sq: "square_table n W" "square_table n S" using Q T by (auto simp: entries_ok_def)
    have bnd: "i < n" "i + j < n" using i by auto
    have W: "\<And>i' k'. get2 ?W i' k' = (if i' = i \<and> k' = i + j then wmin else get2 W i' k')"
      using get2_set2 [OF sq(1) bnd] by simp
    have S: "\<And>i' k'. get2 ?S i' k' = (if i' = i \<and> k' = i + j then imin else get2 S i' k')"
      using get2_set2 [OF sq(2) bnd] by simp
    have same: "best_split fmax cost ?W i' k' = best_split fmax cost W i' k'"
      if "k' - i' \<le> j" for i' k'
      by (rule best_split_cong) (use that in \<open>auto simp: W\<close>)
    have "entries_ok fmax cost n j (?W, ?S)"
      using Q j unfolding T entries_ok_def
      by (auto simp: square_table_set2 sq W S same)
    moreover have "(get2 ?W i' (i' + j), get2 ?S i' (i' + j)) = best_split fmax cost ?W i' (i' + j)"
      if "i' < Suc i" "i' + j < n" for i'
      using that Q unfolding T by (auto simp: W S same b less_Suc_eq)
    ultimately show "?Q (Suc i) (?step i T)" unfolding step by simp
  qed
  then have Q: "?Q (n - j) (fill_length fmax cost n j T)"
    unfolding fill_length_def .
  show ?thesis
    unfolding entries_ok_def
  proof (intro conjI allI impI)
    fix i k assume ik: "i + 2 \<le> k \<and> k < n \<and> k - i < Suc j"
    show "(get2 (fst (fill_length fmax cost n j T)) i k, get2 (snd (fill_length fmax cost n j T)) i k)
            = best_split fmax cost (fst (fill_length fmax cost n j T)) i k"
    proof (cases "k - i < j")
      case True
      then show ?thesis using Q ik unfolding entries_ok_def by blast
    next
      case False
      then have "k = i + j" "i < n - j" using ik by auto
      then show ?thesis using Q ik by auto
    qed
  qed (use Q in \<open>auto simp: entries_ok_def\<close>)
qed

lemma build_tables_ok:
  "entries_ok fmax cost n (max 2 n) (build_tables fmax cost n)"
proof (cases "2 \<le> n")
  case True
  have "entries_ok fmax cost n n (fold (fill_length fmax cost n) [2..<n] (init_2gons n (init_tables fmax n)))"
    by (rule fold_upt_invariant [where P = "entries_ok fmax cost n"])
       (use True in \<open>auto simp: init_2gons_ok fill_length_ok\<close>)
  then show ?thesis using True by (simp add: build_tables_def max_def)
next
  case False
  then show ?thesis using init_2gons_ok [of fmax cost n]
    by (simp add: build_tables_def max_def)
qed

subsection \<open>The emitter and its stack\<close>

lemma add_triangles_simps:
  "add_triangles ops [] m = m"
  "add_triangles ops ((a, b, c) # ts) m = add_triangles ops ts (add_triangle ops a b c m)"
  "add_triangles ops (ts @ us) m = add_triangles ops us (add_triangles ops ts m)"
  by (simp_all add: add_triangles_def)

lemma emit_short:
  "e - s < 2 \<Longrightarrow> emit_triangles ops index vs ((s, e) # rest) m = emit_triangles ops index vs rest m"
  by (subst emit_triangles.simps) simp

lemma emit_split:
  assumes "\<not> e - s < 2" "square_table n index" "length vs = n" "0 \<le> s" "e < int n"
    "0 \<le> index ! nat s ! nat e" "index ! nat s ! nat e < int n"
  shows "emit_triangles ops index vs ((s, e) # rest) m =
         emit_triangles ops index vs
           ((index ! nat s ! nat e, e) # (s, index ! nat s ! nat e) # rest)
           (add_triangle ops (vs ! nat s) (vs ! nat (index ! nat s ! nat e)) (vs ! nat e) m)"
proof -
  have "nat s < n" "nat e < n" "s < int n" "0 \<le> e" using assms by auto
  then have "in_range index s" "in_range (index ! nat s) e" "in_range vs s" "in_range vs e"
    "in_range vs (index ! nat s ! nat e)"
    using assms by (auto simp: in_range_def square_table_def square_table_row)
  then show ?thesis using assms(1)
    by (subst emit_triangles.simps) simp
qed

lemma emit_sentinel:
  assumes "\<not> e - s < 2" "square_table n index" "length vs = n" "0 \<le> s" "e < int n"
    "index ! nat s ! nat e < 0"
  shows "emit_triangles ops index vs ((s, e) # rest) m =
         Some (Inl (Vertex_index_out_of_range (index ! nat s ! nat e)))"
proof -
  have "nat s < n" "nat e < n" "s < int n" "0 \<le> e" using assms by auto
  then have "in_range index s" "in_range (index ! nat s) e" "in_range vs s"
    "\<not> in_range vs (index ! nat s ! nat e)"
    using assms by (auto simp: in_range_def square_table_def square_table_row)
  then show ?thesis using assms(1)
    by (subst emit_triangles.simps) simp
qed

lemma emit_valid:
  "splits_ok index s e \<Longrightarrow> 0 \<le> s \<Longrightarrow> e < int n \<Longrightarrow> square_table n index \<Longrightarrow> length vs = n \<Longrightarrow>
     emit_triangles ops index vs ((s, e) # rest) m =
     emit_triangles ops index vs rest (add_triangles ops (emitted_triangles index vs s e) m)"
proof (induction index s e arbitrary: rest m rule: splits_ok.induct)
  case (1 index s e)
  show ?case
  proof (cases "e - s < 2")
    case True
    then show ?thesis
      by (simp add: emit_short emitted_triangles_def emitted_splits.simps [of index s e]
            add_triangles_simps)
  next
    case False
    let ?sp = "index ! nat s ! nat e"
    have ok: "s < ?sp" "?sp < e" "splits_ok index ?sp e" "splits_ok index s ?sp"
      using "1.prems"(1) False by (subst (asm) splits_ok.simps, simp split: if_splits)+
    have a: "emit_triangles ops index vs ((?sp, e) # (s, ?sp) # rest) m' =
        emit_triangles ops index vs ((s, ?sp) # rest) (add_triangles ops (emitted_triangles index vs ?sp e) m')"
      for m'
      using "1.IH"(1) [OF False _ ok(3)] ok "1.prems" by simp
    have b: "emit_triangles ops index vs ((s, ?sp) # rest) m' =
        emit_triangles ops index vs rest (add_triangles ops (emitted_triangles index vs s ?sp) m')"
      for m'
      using "1.IH"(2) [OF False _ ok(4)] ok "1.prems" by simp
    have ts: "emitted_triangles index vs s e =
        (vs ! nat s, vs ! nat ?sp, vs ! nat e)
          # emitted_triangles index vs ?sp e @ emitted_triangles index vs s ?sp"
      using False ok by (simp add: emitted_triangles_def emitted_splits.simps [of index s e])
    have rng: "0 \<le> ?sp" "?sp < int n" using ok "1.prems" by auto
    show ?thesis
      using emit_split [OF False "1.prems"(4,5,2,3) rng, where rest = rest and ops = ops and m = m]
      by (simp add: a b ts add_triangles_simps)
  qed
qed



lemma emit_total:
  assumes "square_table n index" "length vs = n" "sentinel_or_split n index"
  shows "0 \<le> s \<Longrightarrow> e < int n \<Longrightarrow>
     emit_triangles ops index vs ((s, e) # rest) m =
       (if splits_ok index s e
        then emit_triangles ops index vs rest (add_triangles ops (emitted_triangles index vs s e) m)
        else Some (Inl (Vertex_index_out_of_range (- 1))))"
proof (induction "nat (e - s)" arbitrary: s e rest m rule: less_induct)
  case less
  show ?case
  proof (cases "splits_ok index s e")
    case True
    then show ?thesis using emit_valid [OF True less.prems assms(1,2)] by simp
  next
    case bad: False
    then have long: "\<not> e - s < 2" by (subst (asm) splits_ok.simps) (simp split: if_splits)
    let ?sp = "index ! nat s ! nat e"
    have "nat s + 2 \<le> nat e" "nat e < n" using long less.prems by auto
    then have alt: "?sp = - 1 \<or> (s < ?sp \<and> ?sp < e)"
      using assms(3) [unfolded sentinel_or_split_def, rule_format, of "nat s" "nat e"] less.prems long
      by (auto simp: get2_def)
    show ?thesis
    proof (cases "?sp = - 1")
      case True
      then show ?thesis
        using emit_sentinel [OF long assms(1,2) less.prems, where rest = rest and ops = ops and m = m] bad by simp
    next
      case False
      then have sp: "s < ?sp" "?sp < e" using alt by auto
      have step: "emit_triangles ops index vs ((s, e) # rest) m =
         emit_triangles ops index vs ((?sp, e) # (s, ?sp) # rest)
           (add_triangle ops (vs ! nat s) (vs ! nat ?sp) (vs ! nat e) m)"
        using emit_split [OF long assms(1,2) less.prems, where rest = rest and ops = ops and m = m] sp less.prems by auto
      have ih1: "emit_triangles ops index vs ((?sp, e) # rest') m' =
          (if splits_ok index ?sp e
           then emit_triangles ops index vs rest' (add_triangles ops (emitted_triangles index vs ?sp e) m')
           else Some (Inl (Vertex_index_out_of_range (- 1))))" for rest' m'
        using less.hyps [of e ?sp] sp less.prems by simp
      have ih2: "emit_triangles ops index vs ((s, ?sp) # rest') m' =
          (if splits_ok index s ?sp
           then emit_triangles ops index vs rest' (add_triangles ops (emitted_triangles index vs s ?sp) m')
           else Some (Inl (Vertex_index_out_of_range (- 1))))" for rest' m'
        using less.hyps [of ?sp s] sp less.prems by simp
      have "\<not> (splits_ok index ?sp e \<and> splits_ok index s ?sp)"
        using bad long sp by (subst (asm) splits_ok.simps) simp
      then show ?thesis using bad by (auto simp: step ih1 ih2)
    qed
  qed
qed

lemma emit_nil: "emit_triangles ops index vs [] m = Some (Inr m)"
  by (subst emit_triangles.simps) simp

lemma reached_splits_ok:
  "reached index s e p \<Longrightarrow> splits_ok index s e \<Longrightarrow> s \<le> fst p \<and> splits_ok index (fst p) (snd p)"
proof (induction rule: reached.induct)
  case root
  then show ?case by simp
next
  case (upper a b)
  then have "splits_ok index a b" by simp
  then have "splits_ok index (index ! nat a ! nat b) b"
    using upper.hyps by (subst (asm) splits_ok.simps) (simp split: if_splits)
  then show ?case using upper by simp
next
  case (lower a b)
  then have "splits_ok index a b" by simp
  then have "splits_ok index a (index ! nat a ! nat b)"
    using lower.hyps by (subst (asm) splits_ok.simps) (simp split: if_splits)
  then show ?case using lower by simp
qed

lemma reached_sentinel_not_ok:
  assumes "reached index s e (a, b)" "2 \<le> b - a" "index ! nat a ! nat b = - 1" "0 \<le> s"
  shows "\<not> splits_ok index s e"
proof
  assume "splits_ok index s e"
  then have "s \<le> a" "splits_ok index a b"
    using reached_splits_ok [OF assms(1)] by simp_all
  then show False
    using assms(2-4) by (subst (asm) splits_ok.simps) (simp split: if_splits)
qed

lemma reachable_splits_valid_ok:
  assumes "reachable_splits_valid index s e"
  shows "reached index s e (a, b) \<Longrightarrow> splits_ok index a b"
proof (induction "nat (b - a)" arbitrary: a b rule: less_induct)
  case less
  show ?case
  proof (cases "b - a < 2")
    case True
    then show ?thesis by (subst splits_ok.simps) simp
  next
    case False
    let ?sp = "index ! nat a ! nat b"
    have sp: "a < ?sp" "?sp < b"
      using assms less.prems False by (auto simp: reachable_splits_valid_def)
    have "reached index s e (?sp, b)" "reached index s e (a, ?sp)"
      using less.prems False sp by (auto intro: reached.upper reached.lower)
    then have "splits_ok index ?sp b" "splits_ok index a ?sp"
      using less.hyps [of b ?sp] less.hyps [of ?sp a] sp by auto
    then show ?thesis using False sp by (subst splits_ok.simps) simp
  qed
qed

lemma reachable_splits_valid_iff:
  "reachable_splits_valid index s e = splits_ok index s e"
proof
  assume "reachable_splits_valid index s e"
  then show "splits_ok index s e"
    using reachable_splits_valid_ok [of index s e s e] by (simp add: reached.root)
next
  assume ok: "splits_ok index s e"
  show "reachable_splits_valid index s e"
    unfolding reachable_splits_valid_def
  proof (intro allI impI)
    fix a b assume r: "reached index s e (a, b) \<and> 2 \<le> b - a"
    then have "splits_ok index a b" using reached_splits_ok [of index s e "(a, b)"] ok by simp
    then show "a < index ! nat a ! nat b \<and> index ! nat a ! nat b < b"
      using r by (subst (asm) splits_ok.simps) (simp split: if_splits)
  qed
qed

subsection \<open>The polygon walk and the outcome for one face\<close>

lemma walk_Suc: "walk ops m h0 (Suc j) = next_halfedge ops m (walk ops m h0 j)"
  by (simp add: walk_def)

lemma walk_0: "walk ops m h0 0 = h0"
  by (simp add: walk_def)

lemma collect_prefix:
  assumes "\<And>j. j < k \<Longrightarrow> is_manifold ops m (to_vertex ops m (walk ops m h0 j))"
    and "\<And>j. j < k \<Longrightarrow> walk ops m h0 (Suc j) \<noteq> h0"
  shows "collect_polygon ops m h0 h0 [] [] =
         collect_polygon ops m h0 (walk ops m h0 k) (map (walk ops m h0) [0..<k])
           (map (to_vertex ops m) (map (walk ops m h0) [0..<k]))"
  using assms
proof (induction k)
  case 0
  show ?case by (simp add: walk_0)
next
  case (Suc k)
  have "collect_polygon ops m h0 h0 [] [] =
         collect_polygon ops m h0 (walk ops m h0 k) (map (walk ops m h0) [0..<k])
           (map (to_vertex ops m) (map (walk ops m h0) [0..<k]))"
    using Suc.IH Suc.prems by simp
  also have "\<dots> = collect_polygon ops m h0 (walk ops m h0 (Suc k)) (map (walk ops m h0) [0..<Suc k])
           (map (to_vertex ops m) (map (walk ops m h0) [0..<Suc k]))"
    using Suc.prems(1) [of k] Suc.prems(2) [of k]
    by (subst collect_polygon.simps) (simp add: walk_Suc)
  finally show ?case .
qed

lemma collect_closed:
  assumes "boundary_length ops m f n" "all_manifold ops m f n"
  shows "collect_polygon ops m (halfedge ops m f) (halfedge ops m f) [] [] =
         Some (Inr (polygon_halfedges ops m f n, polygon_vertices ops m f n))"
proof -
  let ?h0 = "halfedge ops m f"
  obtain k where n: "n = Suc k" using assms(1) by (cases n) (auto simp: boundary_length_def)
  have man: "\<And>j. j < n \<Longrightarrow> is_manifold ops m (to_vertex ops m (walk ops m ?h0 j))"
    using assms(2) by (simp add: all_manifold_def polygon_vertices_def polygon_halfedges_def list_all_length)
  have open_: "\<And>j. 1 \<le> j \<Longrightarrow> j < n \<Longrightarrow> walk ops m ?h0 j \<noteq> ?h0"
    using assms(1) by (auto simp: boundary_length_def list_all_iff)
  have closes: "walk ops m ?h0 n = ?h0" using assms(1) by (simp add: boundary_length_def)
  have "collect_polygon ops m ?h0 ?h0 [] [] =
         collect_polygon ops m ?h0 (walk ops m ?h0 k) (map (walk ops m ?h0) [0..<k])
           (map (to_vertex ops m) (map (walk ops m ?h0) [0..<k]))"
    by (rule collect_prefix) (use man open_ n in auto)
  also have "\<dots> = Some (Inr (map (walk ops m ?h0) [0..<Suc k],
       map (to_vertex ops m) (map (walk ops m ?h0) [0..<Suc k])))"
    using man [of k] closes n
    by (subst collect_polygon.simps) (simp add: walk_Suc)
  finally show ?thesis by (simp add: polygon_halfedges_def polygon_vertices_def n)
qed

lemma collect_non_manifold:
  assumes "reaches_non_manifold ops m f k"
  shows "collect_polygon ops m (halfedge ops m f) (halfedge ops m f) [] [] =
         Some (Inl Non_manifold_polygon)"
proof -
  let ?h0 = "halfedge ops m f"
  let ?bad = "\<lambda>j. \<not> is_manifold ops m (to_vertex ops m (walk ops m ?h0 j))"
  define k0 where "k0 = (LEAST j. ?bad j)"
  have bad: "?bad k0" unfolding k0_def
    by (rule LeastI [of ?bad k]) (use assms in \<open>simp add: reaches_non_manifold_def\<close>)
  have le: "k0 \<le> k" unfolding k0_def
    by (rule Least_le) (use assms in \<open>simp add: reaches_non_manifold_def\<close>)
  have good: "\<And>j. j < k0 \<Longrightarrow> \<not> ?bad j" unfolding k0_def by (rule not_less_Least)
  have open_: "\<And>j. 1 \<le> j \<Longrightarrow> j \<le> k \<Longrightarrow> walk ops m ?h0 j \<noteq> ?h0"
    using assms by (auto simp: reaches_non_manifold_def list_all_iff)
  have "collect_polygon ops m ?h0 ?h0 [] [] =
         collect_polygon ops m ?h0 (walk ops m ?h0 k0) (map (walk ops m ?h0) [0..<k0])
           (map (to_vertex ops m) (map (walk ops m ?h0) [0..<k0]))"
    by (rule collect_prefix) (use good open_ le in auto)
  also have "\<dots> = Some (Inl Non_manifold_polygon)"
    using bad by (subst collect_polygon.simps) simp
  finally show ?thesis .
qed

lemma length_polygon [simp]:
  "length (polygon_halfedges ops m f n) = n" "length (polygon_vertices ops m f n) = n"
  by (simp_all add: polygon_halfedges_def polygon_vertices_def)

lemma triangulate_face_rejected:
  "reaches_non_manifold ops m f k \<Longrightarrow>
     triangulate_face ops f m = Some (Inr (m, [Non_manifold_polygon]))"
  by (simp add: triangulate_face_def collect_non_manifold)

lemma triangulate_face_small:
  "boundary_length ops m f n \<Longrightarrow> all_manifold ops m f n \<Longrightarrow> n \<le> 3 \<Longrightarrow>
     triangulate_face ops f m = Some (Inr (m, []))"
  by (simp add: triangulate_face_def collect_closed)

lemma built_index_square: "square_table n (snd (build_tables fmax cost n))"
  using build_tables_ok [of fmax cost n] by (simp add: entries_ok_def)

lemma built_entry:
  assumes "i + 2 \<le> k" "k < n"
  shows "scan_ok fmax (candidate cost (fst (build_tables fmax cost n)) i k) (Suc i) k
           (get2 (fst (build_tables fmax cost n)) i k, get2 (snd (build_tables fmax cost n)) i k)"
proof -
  have "(get2 (fst (build_tables fmax cost n)) i k, get2 (snd (build_tables fmax cost n)) i k)
      = best_split fmax cost (fst (build_tables fmax cost n)) i k"
    using build_tables_ok [of fmax cost n] assms unfolding entries_ok_def by auto
  then show ?thesis using best_split_ok [of i k fmax cost] assms by simp
qed

lemma built_sentinel_or_split: "sentinel_or_split n (snd (build_tables fmax cost n))"
  unfolding sentinel_or_split_def
proof (intro allI impI)
  fix s e assume "s + 2 \<le> e \<and> e < n"
  then show "get2 (snd (build_tables fmax cost n)) s e = - 1 \<or>
       int s < get2 (snd (build_tables fmax cost n)) s e \<and>
       get2 (snd (build_tables fmax cost n)) s e < int e"
    using built_entry [of s e n fmax cost] unfolding scan_ok_def
    by (auto split: if_splits)
qed


subsection \<open>Feasible intervals\<close>

lemma built_two_gon:
  "Suc i < n \<Longrightarrow> get2 (fst (build_tables fmax cost n)) i (Suc i) = 0 \<and>
     get2 (snd (build_tables fmax cost n)) i (Suc i) = - 1"
  using build_tables_ok [of fmax cost n] by (simp add: entries_ok_def)










section \<open>The claims\<close>

text \<open>The two loops that may fail to end are evaluated on concrete meshes by their
  recursion equations.\<close>

declare collect_polygon.simps [code] emit_triangles.simps [code]

subsection \<open>The cost function\<close>




subsection \<open>Faces that are left alone\<close>


lemma triangulate_faces_step:
  "triangulate_face ops f m = Some (Inr (m', ds')) \<Longrightarrow>
     triangulate_faces ops (f # fs) m ds = triangulate_faces ops fs m' (ds @ ds')"
  by simp

text \<open>
  Claim C6. When the boundary walk of a face visits a vertex that fails the manifold
  predicate, \<open>triangulate_face\<close> returns with the diagnostic and the mesh as it was:
  no face is deleted and no triangle inserted. The loop over the faces goes on with
  the next face.
\<close>

theorem non_manifold_face_skipped:
  assumes "reaches_non_manifold ops m f k"
  shows "triangulate_face ops f m = Some (Inr (m, [Non_manifold_polygon])) \<and>
         triangulate_faces ops (f # fs) m ds =
           triangulate_faces ops fs m (ds @ [Non_manifold_polygon])"
  using triangulate_face_rejected [OF assms] by (simp add: triangulate_faces_step)

theorem non_manifold_face_skipped_witness:
  "reaches_non_manifold soup_ops bowtie 0 2 \<and>
   triangulate_face soup_ops 0 bowtie = Some (Inr (bowtie, [Non_manifold_polygon])) \<and>
   triangulate_faces soup_ops [0, 1] bowtie [] =
     triangulate_faces soup_ops [1] bowtie [Non_manifold_polygon] \<and>
   faces soup_ops bowtie = [0, 1] \<and>
   triangulate soup_ops bowtie =
     Some (Inr (bowtie, [Non_manifold_polygon, Non_manifold_polygon], True))"
proof -
  have h: "reaches_non_manifold soup_ops bowtie 0 2" by code_simp
  have t: "faces soup_ops bowtie = [0, 1]"
    "triangulate soup_ops bowtie =
       Some (Inr (bowtie, [Non_manifold_polygon, Non_manifold_polygon], True))"
    by code_simp+
  have c: "triangulate_face soup_ops 0 bowtie = Some (Inr (bowtie, [Non_manifold_polygon]))"
    "triangulate_faces soup_ops [0, 1] bowtie [] =
       triangulate_faces soup_ops [1] bowtie [Non_manifold_polygon]"
    using non_manifold_face_skipped [OF h, of "[1]" "[]"] by simp_all
  show ?thesis by (intro conjI h t c)
qed

text \<open>
  Claim C7. For a face of boundary length \<open>n \<le> 3\<close> whose vertices all pass the
  manifold predicate, \<open>triangulate_face\<close> returns the mesh as it was, with no
  diagnostic: nothing is deleted and nothing inserted.
\<close>

theorem small_face_untouched:
  assumes "boundary_length ops m f n" "all_manifold ops m f n" "n \<le> 3"
  shows "triangulate_face ops f m = Some (Inr (m, []))"
  using assms by (rule triangulate_face_small)

theorem small_face_untouched_witness:
  "boundary_length soup_ops one_triangle 0 3 \<and> all_manifold soup_ops one_triangle 0 3 \<and>
   (3::nat) \<le> 3 \<and> triangulate_face soup_ops 0 one_triangle = Some (Inr (one_triangle, []))"
proof -
  have h: "boundary_length soup_ops one_triangle 0 3" "all_manifold soup_ops one_triangle 0 3"
    by code_simp+
  show ?thesis
    using h small_face_untouched [OF h] by simp
qed



subsection \<open>The tables\<close>

text \<open>
  Claim C1, as amended. After the table-building phase, \<open>W[i][i+1] = 0\<close> and
  \<open>S[i][i+1] = -1\<close> for every \<open>i \<le> n - 2\<close>. For every pair with \<open>k - i \<ge> 2\<close>,
  \<open>W[i][k]\<close> is the least of the sentinel and the values
  \<open>W[i][m] + cost(i,m,k) + W[m][k]\<close> over \<open>i < m < k\<close>. When \<open>W[i][k]\<close> is below the
  sentinel, \<open>S[i][k]\<close> is the lowest \<open>m\<close> that attains it; otherwise \<open>S[i][k] = -1\<close>.
\<close>

theorem tables_built:
  fixes fmax :: "'a::{linorder,plus,zero}"
  assumes "T = build_tables fmax cost n"
  shows "(Suc i < n \<longrightarrow> get2 (fst T) i (Suc i) = 0 \<and> get2 (snd T) i (Suc i) = - 1) \<and>
         (i + 2 \<le> k \<and> k < n \<longrightarrow>
            get2 (fst T) i k = Min (insert fmax (candidate cost (fst T) i k ` {i<..<k})) \<and>
            (if get2 (fst T) i k < fmax
             then \<exists>m. i < m \<and> m < k \<and> get2 (snd T) i k = int m \<and>
                      candidate cost (fst T) i k m = get2 (fst T) i k \<and>
                      (\<forall>m'. i < m' \<and> m' < m \<longrightarrow> get2 (fst T) i k < candidate cost (fst T) i k m')
             else get2 (snd T) i k = - 1))"
proof -
  have eq: "{Suc i..<k} = {i<..<k}" by auto
  show ?thesis
    using built_two_gon [of i n fmax cost] built_entry [of i k n fmax cost]
    unfolding assms scan_ok_def eq
    by (auto simp: Suc_le_eq)
qed

theorem tables_built_witness:
  "(Suc 0 < (4::nat) \<and> (0::nat) + 2 \<le> 3 \<and> (3::nat) < 4) \<and>
   get2 (face_weight soup_ops pillow 0 4) 0 (Suc 0) = 0 \<and>
   get2 (face_index soup_ops pillow 0 4) 0 (Suc 0) = - 1 \<and>
   get2 (face_weight soup_ops pillow 0 4) 0 3 =
     Min (insert FLT_MAX
       (candidate (compute_weight soup_ops (delete_face soup_ops 0 pillow)
                     (polygon_vertices soup_ops pillow 0 4))
          (face_weight soup_ops pillow 0 4) 0 3 ` {0<..<3})) \<and>
   get2 (face_weight soup_ops pillow 0 4) 0 3 = 40 \<and>
   get2 (face_index soup_ops pillow 0 4) 0 3 = 2"
proof -
  let ?cost = "compute_weight soup_ops (delete_face soup_ops 0 pillow)
                 (polygon_vertices soup_ops pillow 0 4)"
  have T: "face_weight soup_ops pillow 0 4 = fst (build_tables FLT_MAX ?cost 4)"
    "face_index soup_ops pillow 0 4 = snd (build_tables FLT_MAX ?cost 4)"
    by (simp_all add: face_weight_def face_index_def)
  have v: "get2 (face_weight soup_ops pillow 0 4) 0 3 = 40"
    "get2 (face_index soup_ops pillow 0 4) 0 3 = 2"
    by code_simp+
  show ?thesis
    using tables_built [of "build_tables FLT_MAX ?cost 4" FLT_MAX ?cost 4 0 3, OF refl] v
    unfolding T by simp
qed

text \<open>
  The claim as stated fails where every split of an interval is infeasible. In the
  mesh \<open>pillow\<close> the quadrilateral is accepted; for its interval \<open>(1, 3)\<close> the only
  split \<open>m = 2\<close> attains the minimum (its value is the value stored in \<open>W[1][3]\<close>), and
  yet \<open>S[1][3]\<close> is \<open>-1\<close>, not 2. In the mesh \<open>torus\<close> the hexagon is accepted; for its
  interval \<open>(0, 3)\<close> both splits have the value \<open>2 * FLT_MAX\<close>, which is their
  minimum, and \<open>W[0][3]\<close> is \<open>FLT_MAX\<close>.
\<close>

theorem tables_built_counterexample:
  "(boundary_length soup_ops pillow 0 4 \<and> all_manifold soup_ops pillow 0 4 \<and>
    candidate (compute_weight soup_ops (delete_face soup_ops 0 pillow)
                 (polygon_vertices soup_ops pillow 0 4))
      (face_weight soup_ops pillow 0 4) 1 3 2 = get2 (face_weight soup_ops pillow 0 4) 1 3 \<and>
    get2 (face_index soup_ops pillow 0 4) 1 3 = - 1) \<and>
   (boundary_length soup_ops torus 0 6 \<and> all_manifold soup_ops torus 0 6 \<and>
    list_all (\<lambda>m. candidate (compute_weight soup_ops (delete_face soup_ops 0 torus)
                               (polygon_vertices soup_ops torus 0 6))
                     (face_weight soup_ops torus 0 6) 0 3 m = 2 * FLT_MAX) [1, 2] \<and>
    get2 (face_weight soup_ops torus 0 6) 0 3 = FLT_MAX \<and>
    get2 (face_index soup_ops torus 0 6) 0 3 = - 1)"
  by code_simp

text \<open>
  Claim C8. When every candidate value of an interval \<open>(i, k)\<close> with \<open>k - i \<ge> 2\<close> is
  the sentinel (or above it), the table builder stores the sentinel in \<open>W[i][k]\<close> and
  \<open>-1\<close> in \<open>S[i][k]\<close>, which is not a split strictly between \<open>i\<close> and \<open>k\<close>.
\<close>

theorem infeasible_interval:
  fixes fmax :: "'a::{linorder,plus,zero}"
  assumes "T = build_tables fmax cost n" "i + 2 \<le> k" "k < n"
    and "list_all (\<lambda>m. fmax \<le> candidate cost (fst T) i k m) [Suc i..<k]"
  shows "get2 (fst T) i k = fmax \<and> get2 (snd T) i k = - 1 \<and>
         \<not> (int i < get2 (snd T) i k \<and> get2 (snd T) i k < int k)"
proof -
  have ge: "\<And>m. m \<in> {Suc i..<k} \<Longrightarrow> fmax \<le> candidate cost (fst T) i k m"
    using assms(4) by (simp add: list_all_iff)
  have Min: "Min (insert fmax (candidate cost (fst T) i k ` {Suc i..<k})) = fmax"
    by (rule Min_eqI) (use ge in auto)
  have e: "scan_ok fmax (candidate cost (fst T) i k) (Suc i) k (get2 (fst T) i k, get2 (snd T) i k)"
    using built_entry [OF assms(2,3), of fmax cost] unfolding assms(1) .
  have w: "get2 (fst T) i k = fmax" using e Min by (simp add: scan_ok_def)
  have s: "get2 (snd T) i k = - 1" using e w by (simp add: scan_ok_def)
  show ?thesis using w s by simp
qed

theorem infeasible_interval_witness:
  "((1::nat) + 2 \<le> 3 \<and> (3::nat) < 4) \<and>
   list_all (\<lambda>m. FLT_MAX \<le> candidate (compute_weight soup_ops (delete_face soup_ops 0 pillow) [0, 1, 2, 3])
        (fst (build_tables FLT_MAX (compute_weight soup_ops (delete_face soup_ops 0 pillow) [0, 1, 2, 3]) 4))
        1 3 m) [Suc 1..<3] \<and>
   get2 (fst (build_tables FLT_MAX (compute_weight soup_ops (delete_face soup_ops 0 pillow) [0, 1, 2, 3]) 4)) 1 3
     = FLT_MAX \<and>
   get2 (snd (build_tables FLT_MAX (compute_weight soup_ops (delete_face soup_ops 0 pillow) [0, 1, 2, 3]) 4)) 1 3
     = - 1"
proof -
  let ?cost = "compute_weight soup_ops (delete_face soup_ops 0 pillow) [0, 1, 2, 3]"
  have h: "list_all (\<lambda>m. FLT_MAX \<le> candidate ?cost (fst (build_tables FLT_MAX ?cost 4)) 1 3 m) [Suc 1..<3]"
    by code_simp
  show ?thesis
    using h infeasible_interval [OF refl _ _ h] by simp
qed

subsection \<open>The emitter\<close>

text \<open>
  Claim C9. The emitter uses the stored split without a check. If every entry that it
  reaches from the root \<open>(0, n - 1)\<close>, for an interval \<open>(a, b)\<close> with \<open>b - a \<ge> 2\<close>, lies
  strictly between \<open>a\<close> and \<open>b\<close>, every access to the table and to the vertex list is
  in bounds and the stack loop ends: the result is a mesh, not a fault. If the entries
  of the table are sentinels or proper splits, as the table builder leaves them
  (\<open>built_sentinel_or_split\<close>), and the entry of a reached interval \<open>(a, b)\<close> with
  \<open>b - a \<ge> 2\<close> is the sentinel \<open>-1\<close>, the emitter reads the vertex list at index \<open>-1\<close>.
\<close>

theorem emitter_bounds:
  assumes "square_table n index" "length vs = n" "0 < n"
  shows "(reachable_splits_valid index 0 (int n - 1) \<longrightarrow>
            emit_triangles ops index vs [(0, int n - 1)] m =
              Some (Inr (add_triangles ops (emitted_triangles index vs 0 (int n - 1)) m))) \<and>
         (sentinel_or_split n index \<and> reached index 0 (int n - 1) (a, b) \<and> 2 \<le> b - a \<and>
          index ! nat a ! nat b = - 1 \<longrightarrow>
            emit_triangles ops index vs [(0, int n - 1)] m =
              Some (Inl (Vertex_index_out_of_range (- 1))))"
proof (intro conjI impI)
  assume "reachable_splits_valid index 0 (int n - 1)"
  then have "splits_ok index 0 (int n - 1)" by (simp add: reachable_splits_valid_iff)
  then show "emit_triangles ops index vs [(0, int n - 1)] m =
      Some (Inr (add_triangles ops (emitted_triangles index vs 0 (int n - 1)) m))"
    using emit_valid [of index 0 "int n - 1" n vs ops "[]" m] assms by (simp add: emit_nil)
next
  assume r: "sentinel_or_split n index \<and> reached index 0 (int n - 1) (a, b) \<and> 2 \<le> b - a \<and>
          index ! nat a ! nat b = - 1"
  then have "\<not> splits_ok index 0 (int n - 1)"
    using reached_sentinel_not_ok [of index 0 "int n - 1" a b] by simp
  then show "emit_triangles ops index vs [(0, int n - 1)] m =
      Some (Inl (Vertex_index_out_of_range (- 1)))"
    using emit_total [OF assms(1,2), of 0 "int n - 1" ops "[]" m] r by simp
qed

theorem emitter_bounds_witness:
  "(square_table 4 (face_index soup_ops pillow 0 4) \<and> length [0, 1, 2, 3::nat] = 4 \<and> (0::nat) < 4) \<and>
   reachable_splits_valid (face_index soup_ops pillow 0 4) 0 3 \<and>
   emit_triangles soup_ops (face_index soup_ops pillow 0 4) [0, 1, 2, 3] [(0, 3)]
       (delete_face soup_ops 0 pillow) =
     Some (Inr (add_triangles soup_ops [(0, 2, 3), (0, 1, 2)] (delete_face soup_ops 0 pillow))) \<and>
   square_table 4 (snd (build_tables FLT_MAX (compute_weight soup_ops pillow [0, 1, 2, 3]) 4)) \<and>
   sentinel_or_split 4 (snd (build_tables FLT_MAX (compute_weight soup_ops pillow [0, 1, 2, 3]) 4)) \<and>
   reached (snd (build_tables FLT_MAX (compute_weight soup_ops pillow [0, 1, 2, 3]) 4)) 0 3 (0, 3) \<and>
   snd (build_tables FLT_MAX (compute_weight soup_ops pillow [0, 1, 2, 3]) 4) ! 0 ! 3 = - 1 \<and>
   emit_triangles soup_ops (snd (build_tables FLT_MAX (compute_weight soup_ops pillow [0, 1, 2, 3]) 4))
       [0, 1, 2, 3] [(0, 3)] (delete_face soup_ops 0 pillow) =
     Some (Inl (Vertex_index_out_of_range (- 1)))"
proof -
  let ?good = "face_index soup_ops pillow 0 4"
  let ?bad = "snd (build_tables FLT_MAX (compute_weight soup_ops pillow [0, 1, 2, 3]) 4)"
  let ?m1 = "delete_face soup_ops 0 pillow"
  have sq: "square_table 4 ?good" "square_table 4 ?bad"
    by (simp_all add: face_index_def built_index_square)
  have sos: "sentinel_or_split 4 ?bad" by (rule built_sentinel_or_split)
  have ok: "reachable_splits_valid ?good 0 3"
    by (subst reachable_splits_valid_iff) code_simp
  have r: "reached ?bad 0 3 (0, 3)" by (rule reached.root)
  have e: "?bad ! 0 ! 3 = - 1" by code_simp
  have ts: "emitted_triangles ?good [0, 1, 2, 3] 0 3 = [(0, 2, 3), (0, 1, 2)]" by code_simp
  have len: "length [0, 1, 2, 3::nat] = 4" "(0::nat) < 4" by simp_all
  have g: "emit_triangles soup_ops ?good [0, 1, 2, 3] [(0, 3)] ?m1 =
      Some (Inr (add_triangles soup_ops [(0, 2, 3), (0, 1, 2)] ?m1))"
    using emitter_bounds [OF sq(1) len, where ops = soup_ops and m = ?m1] ok ts by simp
  have b: "emit_triangles soup_ops ?bad [0, 1, 2, 3] [(0, 3)] ?m1 =
      Some (Inl (Vertex_index_out_of_range (- 1)))"
    using emitter_bounds [OF sq(2) len, where a = 0 and b = 3 and ops = soup_ops and m = ?m1]
      sos r e by simp
  show ?thesis by (intro conjI sq len ok g sos r e b)
qed

subsection \<open>Accepted faces\<close>




subsection \<open>The order of the steps\<close>




subsection \<open>Interior edges are avoided\<close>




end
